theory Spec2Isabelle
  imports Complex_Main "HOL-Library.Word"
begin

section \<open>JavaScript values used by the encoder and the trimmer\<close>

text \<open>
  A JavaScript string is a sequence of UTF-16 code units; \<open>charCodeAt\<close> reads one of them.
  String literals of the source are ASCII and are embedded unit by unit with \<open>lit\<close>.
\<close>

type_synonym code_unit = "16 word"
type_synonym jsstring = "code_unit list"

definition lit :: "string \<Rightarrow> jsstring" where
  "lit s = map of_char s"

text \<open>
  Numbers. The encoder computes with integers only (\<open>charCodeAt\<close> results, sums and one
  remainder): they are \<open>int\<close>, which agrees with the source's doubles while the values stay
  below \<open>2 ^ 53\<close>. The renderer's options are arbitrary numbers: they are exact rationals,
  which agrees with the doubles wherever the doubles compute without rounding.
\<close>

type_synonym number = rat

text \<open>The thrown values: \<open>new Error(msg)\<close>, \<open>new TypeError(msg)\<close>, and the \<open>RangeError\<close>
  of the typed-array primitives.\<close>

datatype js_error = Error jsstring | TypeError jsstring | RangeError

subsection \<open>Number to string\<close>

text \<open>\<open>n.toString(radix)\<close> for a non-negative integer, lower case as the engine prints it.\<close>

definition digit_unit :: "nat \<Rightarrow> code_unit" where
  "digit_unit d = (if d < 10 then of_nat (48 + d) else of_nat (87 + d))"

fun natToString :: "nat \<Rightarrow> nat \<Rightarrow> jsstring" where
  "natToString radix n =
     (if radix < 2 \<or> n < radix then [digit_unit n]
      else natToString radix (n div radix) @ [digit_unit (n mod radix)])"

declare natToString.simps [simp del]

definition intToString :: "int \<Rightarrow> jsstring" where
  "intToString k = (if k < 0 then lit ''-'' @ natToString 10 (nat (- k)) else natToString 10 (nat k))"

text \<open>\<open>s.toUpperCase()\<close> on the output of \<open>toString(16)\<close>: only \<open>a..z\<close> occur there.\<close>

definition toUpperCase :: "jsstring \<Rightarrow> jsstring" where
  "toUpperCase s = map (\<lambda>c. if 97 \<le> unat c \<and> unat c \<le> 122 then c - 32 else c) s"

text \<open>
  The template-literal conversion of a number. An integer prints as its decimal digits
  (the engine does so below \<open>10 ^ 21\<close>); a non-integer prints its integer part, a point and
  the digits of its fraction (at most 20 of them; the engine prints the shortest digits that
  read back as the same double, which is the same text whenever the double is the exact
  value and its decimal expansion is short).
\<close>

fun fractionDigits :: "nat \<Rightarrow> rat \<Rightarrow> jsstring" where
  "fractionDigits 0 r = []"
| "fractionDigits (Suc k) r =
     (if r = 0 then []
      else digit_unit (nat \<lfloor>10 * r\<rfloor>) # fractionDigits k (10 * r - of_int \<lfloor>10 * r\<rfloor>))"

definition numberToString :: "number \<Rightarrow> jsstring" where
  "numberToString x =
     (if x = of_int \<lfloor>x\<rfloor> then intToString \<lfloor>x\<rfloor>
      else (if x < 0 then lit ''-'' else []) @ natToString 10 (nat \<lfloor>\<bar>x\<bar>\<rfloor>) @ lit ''.''
           @ fractionDigits 20 (\<bar>x\<bar> - of_int \<lfloor>\<bar>x\<bar>\<rfloor>))"

section \<open>Code 128 (code set B) encoder\<close>

text \<open>The patterns table: 107 entries (0..106), six module widths each, seven for STOP.\<close>

definition CODE128_PATTERNS :: "string list" where
  "CODE128_PATTERNS = [
  ''212222'',''222122'',''222221'',''121223'',''121322'',''131222'',''122213'',''122312'',''132212'',''221213'',
  ''221312'',''231212'',''112232'',''122132'',''122231'',''113222'',''123122'',''123221'',''223211'',''221132'',
  ''221231'',''213212'',''223112'',''312131'',''311222'',''321122'',''321221'',''312212'',''322112'',''322211'',
  ''212123'',''212321'',''232121'',''111323'',''131123'',''131321'',''112313'',''132113'',''132311'',''211313'',
  ''231113'',''231311'',''112133'',''112331'',''132131'',''113123'',''113321'',''133121'',''313121'',''211331'',
  ''231131'',''213113'',''213311'',''213131'',''311123'',''311321'',''331121'',''312113'',''312311'',''332111'',
  ''314111'',''221411'',''431111'',''111224'',''111422'',''121124'',''121421'',''141122'',''141221'',''112214'',
  ''112412'',''122114'',''122411'',''142112'',''142211'',''241211'',''221114'',''413111'',''241112'',''134111'',
  ''111242'',''121142'',''121241'',''114212'',''124112'',''124211'',''411212'',''421112'',''421211'',''212141'',
  ''214121'',''412121'',''111143'',''111341'',''131141'',''114113'',''114311'',''411113'',''411311'',''113141'',
  ''114131'',''311141'',''411131'',''211412'',''211214'',''211232'',''2331112'']"

definition START_CODE_B :: int where
  "START_CODE_B = 104"

definition STOP_CODE :: int where
  "STOP_CODE = 106"

text \<open>\<open>text.charCodeAt(i)\<close> for an index inside the string.\<close>

definition charCode :: "code_unit \<Rightarrow> int" where
  "charCode c = uint c"

text \<open>
  \<open>assertCodeSetBCompatible\<close>: the loop over \<open>i = 0 .. text.length - 1\<close>, as a recursion on
  the rest of the string that carries \<open>i\<close>. The first character outside 32..126 throws.
\<close>

definition unsupportedMessage :: "nat \<Rightarrow> int \<Rightarrow> jsstring" where
  "unsupportedMessage i code =
     lit ''Character at index '' @ intToString (int i) @ lit '' (U+''
     @ toUpperCase (natToString 16 (nat code)) @ lit '') not supported by Code 128-B''"

fun assertFrom :: "nat \<Rightarrow> jsstring \<Rightarrow> js_error + unit" where
  "assertFrom i [] = Inr ()"
| "assertFrom i (c # cs) =
     (let code = charCode c in
      if code < 32 \<or> code > 126 then Inl (Error (unsupportedMessage i code))
      else assertFrom (Suc i) cs)"

definition assertCodeSetBCompatible :: "jsstring \<Rightarrow> js_error + unit" where
  "assertCodeSetBCompatible text = assertFrom 0 text"

text \<open>The remainder operator \<open>%\<close> of the source: the result has the sign of the dividend.\<close>

definition js_rem :: "int \<Rightarrow> int \<Rightarrow> int" where
  "js_rem a b = (if a < 0 then - ((- a) mod \<bar>b\<bar>) else a mod \<bar>b\<bar>)"

text \<open>\<open>computeCodesForSetB\<close>: the first loop pushes \<open>charCodeAt(i) - 32\<close>, the second one adds
  \<open>(charCodeAt(i) - 32) * (i + 1)\<close> to the checksum.\<close>

fun pushCodes :: "int list \<Rightarrow> jsstring \<Rightarrow> int list" where
  "pushCodes codes [] = codes"
| "pushCodes codes (c # cs) = pushCodes (codes @ [charCode c - 32]) cs"

fun checksumFrom :: "int \<Rightarrow> nat \<Rightarrow> jsstring \<Rightarrow> int" where
  "checksumFrom checksum i [] = checksum"
| "checksumFrom checksum i (c # cs) =
     checksumFrom (checksum + (charCode c - 32) * (int i + 1)) (Suc i) cs"

definition computeCodesForSetB :: "jsstring \<Rightarrow> int list" where
  "computeCodesForSetB text =
     (let codes = pushCodes [START_CODE_B] text;
          checksum = js_rem (checksumFrom START_CODE_B 0 text) 103
      in (codes @ [checksum]) @ [STOP_CODE])"

text \<open>
  \<open>codesToModules\<close>. \<open>CODE128_PATTERNS[code]\<close> is \<open>undefined\<close> outside the table, and
  \<open>!pattern\<close> also holds of the empty string. \<open>Number(pattern[i])\<close> reads one digit.
\<close>

definition patternAt :: "int \<Rightarrow> string option" where
  "patternAt code =
     (if 0 \<le> code \<and> code < int (length CODE128_PATTERNS)
      then Some (CODE128_PATTERNS ! nat code) else None)"

definition digitNumber :: "char \<Rightarrow> int" where
  "digitNumber ch = of_char ch - 48"

fun modulesFrom :: "int list \<Rightarrow> int list \<Rightarrow> js_error + int list" where
  "modulesFrom modules [] = Inr modules"
| "modulesFrom modules (code # codes) =
     (case patternAt code of
        None \<Rightarrow> Inl (Error (lit ''Pattern not found for code '' @ intToString code))
      | Some pattern \<Rightarrow>
          if pattern = [] then Inl (Error (lit ''Pattern not found for code '' @ intToString code))
          else modulesFrom (modules @ map digitNumber pattern) codes)"

definition codesToModules :: "int list \<Rightarrow> js_error + int list" where
  "codesToModules codes = modulesFrom [] codes"

definition encodeCode128BToModules :: "jsstring \<Rightarrow> js_error + int list" where
  "encodeCode128BToModules text =
     (case assertCodeSetBCompatible text of
        Inl e \<Rightarrow> Inl e
      | Inr _ \<Rightarrow> codesToModules (computeCodesForSetB text))"

section \<open>SVG renderer\<close>

text \<open>
  \<open>Code128RenderOptions\<close>: every property is optional. The field \<open>p_opt\<close> is the property
  \<open>p\<close> of the options object, \<open>None\<close> when it is absent; the destructuring in
  \<open>renderCode128BToSvg\<close> then takes the default.
\<close>

record Code128RenderOptions =
  moduleWidth_opt :: "number option"
  height_opt :: "number option"
  quietZone_opt :: "number option"
  background_opt :: "jsstring option"
  barColor_opt :: "jsstring option"
  displayValue_opt :: "bool option"
  fontFamily_opt :: "jsstring option"
  fontSize_opt :: "number option"
  textMargin_opt :: "number option"

text \<open>\<open>value.replace(/c/g, r)\<close> for a one-character pattern, and the five passes of
  \<open>escapeXml\<close> in the order of the source (\<open>&\<close> first).\<close>

definition replaceAll :: "code_unit \<Rightarrow> jsstring \<Rightarrow> jsstring \<Rightarrow> jsstring" where
  "replaceAll c r s = concat (map (\<lambda>d. if d = c then r else [d]) s)"

definition escapeXml :: "jsstring \<Rightarrow> jsstring" where
  \<open>escapeXml value =
     replaceAll 39 (lit ''&apos;'')
       (replaceAll 34 (lit ''&quot;'')
         (replaceAll 62 (lit ''&gt;'')
           (replaceAll 60 (lit ''&lt;'')
             (replaceAll 38 (lit ''&amp;'') value))))\<close>

text \<open>The loop over the modules: the rectangle template \<open>barRect\<close> is appended for a bar,
  \<open>x\<close> advances and \<open>isBar\<close> flips for every module.\<close>

definition barRect :: "number \<Rightarrow> number \<Rightarrow> number \<Rightarrow> jsstring \<Rightarrow> jsstring" where
  \<open>barRect x wPx barsHeight barColor =
     lit ''<rect x="'' @ numberToString x @ lit ''" y="0" width="'' @ numberToString wPx
     @ lit ''" height="'' @ numberToString barsHeight @ lit ''" fill="'' @ barColor @ lit ''"/>''\<close>

fun barsFrom :: "number \<Rightarrow> number \<Rightarrow> jsstring \<Rightarrow> number \<Rightarrow> bool \<Rightarrow> jsstring \<Rightarrow> int list \<Rightarrow> jsstring" where
  "barsFrom moduleWidth barsHeight barColor x isBar svgBars [] = svgBars"
| "barsFrom moduleWidth barsHeight barColor x isBar svgBars (w # ws) =
     (let wPx = of_int w * moduleWidth;
          svgBars' = (if isBar then svgBars @ barRect x wPx barsHeight barColor else svgBars)
      in barsFrom moduleWidth barsHeight barColor (x + wPx) (\<not> isBar) svgBars' ws)"

text \<open>\<open>renderCode128BToSvg\<close>. \<open>modules.reduce((acc, m) => acc + m, 0)\<close> is the fold; the
  literal \<open>0.8\<close> is the rational \<open>8 / 10\<close>.\<close>

definition renderCode128BToSvg :: "jsstring \<Rightarrow> Code128RenderOptions \<Rightarrow> js_error + jsstring" where
  \<open>renderCode128BToSvg text options =
     (let moduleWidth = (case moduleWidth_opt options of None \<Rightarrow> 2 | Some v \<Rightarrow> v);
          height = (case height_opt options of None \<Rightarrow> 60 | Some v \<Rightarrow> v);
          quietZone = (case quietZone_opt options of None \<Rightarrow> 10 | Some v \<Rightarrow> v);
          background = (case background_opt options of None \<Rightarrow> lit ''#ffffff'' | Some v \<Rightarrow> v);
          barColor = (case barColor_opt options of None \<Rightarrow> lit ''#000000'' | Some v \<Rightarrow> v);
          displayValue = (case displayValue_opt options of None \<Rightarrow> False | Some v \<Rightarrow> v);
          fontFamily = (case fontFamily_opt options of None \<Rightarrow> lit ''monospace'' | Some v \<Rightarrow> v);
          fontSize = (case fontSize_opt options of None \<Rightarrow> 14 | Some v \<Rightarrow> v);
          textMargin = (case textMargin_opt options of None \<Rightarrow> 4 | Some v \<Rightarrow> v)
      in case encodeCode128BToModules text of
           Inl e \<Rightarrow> Inl e
         | Inr modules \<Rightarrow>
             (let totalModules = fold (\<lambda>m acc. acc + of_int m) modules 0 + quietZone * 2;
                  barsHeight = (if displayValue then max 0 (height - fontSize - textMargin) else height);
                  widthPx = totalModules * moduleWidth;
                  heightPx = height;
                  svgBars = barsFrom moduleWidth barsHeight barColor (quietZone * moduleWidth) True [] modules;
                  svgText =
                    (if displayValue
                     then (let textY = barsHeight + textMargin + fontSize * (8 / 10);
                               textX = widthPx / 2;
                               escaped = escapeXml text
                           in lit ''<text x="'' @ numberToString textX @ lit ''" y="'' @ numberToString textY
                              @ lit ''" text-anchor="middle" font-family="'' @ escapeXml fontFamily
                              @ lit ''" font-size="'' @ numberToString fontSize @ lit ''">'' @ escaped
                              @ lit ''</text>'')
                     else []);
                  svg = lit ''<?xml version="1.0" encoding="UTF-8"?>'' @ [10]
                        @ lit ''<svg xmlns="http://www.w3.org/2000/svg" width="'' @ numberToString widthPx
                        @ lit ''" height="'' @ numberToString heightPx @ lit ''" viewBox="0 0 ''
                        @ numberToString widthPx @ lit '' '' @ numberToString heightPx
                        @ lit ''" shape-rendering="crispEdges">''
                        @ lit ''<rect x="0" y="0" width="100%" height="100%" fill="'' @ background @ lit ''"/>''
                        @ svgBars @ svgText @ lit ''</svg>''
              in Inr svg))\<close>

section \<open>Horizontal bounds and cropping\<close>

text \<open>
  An \<open>ArrayBuffer\<close> is its bytes; \<open>new Uint8Array(buffer)\<close> is a view of the same bytes.
  \<open>computeHorizontalBounds\<close> tests \<open>buffer instanceof ArrayBuffer\<close>, so its argument is a
  value that is an \<open>ArrayBuffer\<close> or something else.
\<close>

type_synonym byte = "8 word"

datatype js_value = ArrayBuffer "byte list" | NotArrayBuffer

text \<open>\<open>pixelOrder\<close>: the source compares with \<open>'BGRA'\<close> and reads every other value as RGBA.\<close>

datatype pixel_order = RGBA | BGRA

text \<open>The options object of both functions (\<open>cropHorizontalBuffer\<close> reads \<open>bytesPerPixel\<close>
  only), with the field \<open>p_opt\<close> for the optional property \<open>p\<close> as above. Widths, heights,
  indices and the sampling step are integers.\<close>

record TrimOptions =
  bytesPerPixel_opt :: "int option"
  pixelOrder_opt :: "pixel_order option"
  blackThreshold_opt :: "number option"
  minCoverageRatio_opt :: "number option"
  sampleStep_opt :: "int option"

text \<open>The returned objects \<open>{ left, right }\<close> and \<open>{ buffer, width, height }\<close>. Their fields
  carry a prefix: the plain names are those of the parameters of the two functions.\<close>

record Bounds =
  bounds_left :: int
  bounds_right :: int

record Cropped =
  crop_buffer :: "byte list"
  crop_width :: int
  crop_height :: int

text \<open>\<open>view[idx]\<close>: \<open>undefined\<close> (here \<open>None\<close>) outside the view.\<close>

definition viewAt :: "byte list \<Rightarrow> int \<Rightarrow> int option" where
  "viewAt view idx =
     (if 0 \<le> idx \<and> idx < int (length view) then Some (uint (view ! nat idx)) else None)"

text \<open>
  \<open>isBlackAtIndex\<close>. With an \<open>undefined\<close> channel the sum is \<open>NaN\<close> and \<open>NaN >> 8\<close> is 0;
  \<open>undefined >= 16\<close> is false. On the integers that occur, \<open>>> 8\<close> drops eight bits.
\<close>

definition isBlackAtIndex :: "byte list \<Rightarrow> pixel_order \<Rightarrow> number \<Rightarrow> int \<Rightarrow> bool" where
  "isBlackAtIndex view pixelOrder blackThreshold idx =
     (let (r, g, b, a) =
            (if pixelOrder = BGRA
             then (viewAt view (idx + 2), viewAt view (idx + 1), viewAt view idx, viewAt view (idx + 3))
             else (viewAt view idx, viewAt view (idx + 1), viewAt view (idx + 2), viewAt view (idx + 3)));
          luminance =
            (case (r, g, b) of
               (Some r, Some g, Some b) \<Rightarrow> drop_bit 8 (54 * r + 183 * g + 19 * b)
             | _ \<Rightarrow> 0)
      in (case a of None \<Rightarrow> False | Some a \<Rightarrow> a \<ge> 16) \<and> of_int luminance \<le> blackThreshold)"

text \<open>
  The inner loop \<open>for (let y = 0; y < height; y += sampleStep)\<close> of one column, from row
  \<open>y\<close> with \<open>hits\<close> counted so far; the result is \<open>hits\<close> after the loop. The test of
  the body, \<open>isBlackAtIndex((y * width + left) * bytesPerPixel)\<close>, is passed as a function
  of the row. With a sampling step below 1 the loop need not end: the value is then \<open>None\<close>.
\<close>

partial_function (option) columnHits ::
  "(int \<Rightarrow> bool) \<Rightarrow> int \<Rightarrow> int \<Rightarrow> int \<Rightarrow> int \<Rightarrow> int \<Rightarrow> int option" where
  "columnHits isBlackAtRow height sampleStep minHits y hits =
     (if y < height
      then (if isBlackAtRow y
            then (if hits + 1 \<ge> minHits then Some (hits + 1)
                  else columnHits isBlackAtRow height sampleStep minHits (y + sampleStep) (hits + 1))
            else columnHits isBlackAtRow height sampleStep minHits (y + sampleStep) hits)
      else Some hits)"

text \<open>The scan from the left: \<open>for (; left < width; left++)\<close>, leaving at the first column
  whose hits reach \<open>minHits\<close>.\<close>

function scanLeft ::
  "(int \<Rightarrow> bool) \<Rightarrow> int \<Rightarrow> int \<Rightarrow> int \<Rightarrow> int \<Rightarrow> int \<Rightarrow> int \<Rightarrow> int option" where
  "scanLeft isBlack width height bytesPerPixel sampleStep minHits left =
     (if left < width
      then (case columnHits (\<lambda>y. isBlack ((y * width + left) * bytesPerPixel))
                   height sampleStep minHits 0 0 of
              None \<Rightarrow> None
            | Some hits \<Rightarrow>
                if hits \<ge> minHits then Some left
                else scanLeft isBlack width height bytesPerPixel sampleStep minHits (left + 1))
      else Some left)"
  by pat_completeness auto
termination
  by (relation "measure (\<lambda>(isBlack, width, height, bytesPerPixel, sampleStep, minHits, left).
        nat (width - left))") auto

declare scanLeft.simps [simp del]

text \<open>The scan from the right: \<open>for (; right >= left; right--)\<close>.\<close>

function scanRight ::
  "(int \<Rightarrow> bool) \<Rightarrow> int \<Rightarrow> int \<Rightarrow> int \<Rightarrow> int \<Rightarrow> int \<Rightarrow> int \<Rightarrow> int \<Rightarrow> int option" where
  "scanRight isBlack width height bytesPerPixel sampleStep minHits left right =
     (if right \<ge> left
      then (case columnHits (\<lambda>y. isBlack ((y * width + right) * bytesPerPixel))
                   height sampleStep minHits 0 0 of
              None \<Rightarrow> None
            | Some hits \<Rightarrow>
                if hits \<ge> minHits then Some right
                else scanRight isBlack width height bytesPerPixel sampleStep minHits left (right - 1))
      else Some right)"
  by pat_completeness auto
termination
  by (relation "measure (\<lambda>(isBlack, width, height, bytesPerPixel, sampleStep, minHits, left, right).
        nat (right - left + 1))") auto

declare scanRight.simps [simp del]

text \<open>
  \<open>computeHorizontalBounds\<close>. The result is \<open>None\<close> when the call does not return,
  \<open>Some (Inl e)\<close> when it throws \<open>e\<close> and \<open>Some (Inr bounds)\<close> when it returns \<open>bounds\<close>.
\<close>

definition computeHorizontalBounds ::
  "js_value \<Rightarrow> int \<Rightarrow> int \<Rightarrow> TrimOptions \<Rightarrow> (js_error + Bounds) option" where
  "computeHorizontalBounds buffer width height options =
     (let bytesPerPixel = (case bytesPerPixel_opt options of None \<Rightarrow> 4 | Some v \<Rightarrow> v);
          pixelOrder = (case pixelOrder_opt options of None \<Rightarrow> RGBA | Some v \<Rightarrow> v);
          blackThreshold = (case blackThreshold_opt options of None \<Rightarrow> 64 | Some v \<Rightarrow> v);
          minCoverageRatio = (case minCoverageRatio_opt options of None \<Rightarrow> 2 / 100 | Some v \<Rightarrow> v);
          sampleStep = (case sampleStep_opt options of None \<Rightarrow> 1 | Some v \<Rightarrow> v)
      in case buffer of
           NotArrayBuffer \<Rightarrow> Some (Inl (TypeError (lit ''buffer must be an ArrayBuffer'')))
         | ArrayBuffer bytes \<Rightarrow>
             if bytesPerPixel \<noteq> 4
             then Some (Inl (Error (lit ''Only 4 bytes-per-pixel buffers (RGBA/BGRA) are supported'')))
             else if width \<le> 0 \<or> height \<le> 0
             then Some (Inr \<lparr>bounds_left = 0, bounds_right = 0\<rparr>)
             else
               (let view = bytes;
                    minHits = max 1 \<lfloor>of_int height * max 0 (min 1 minCoverageRatio)\<rfloor>;
                    isBlack = isBlackAtIndex view pixelOrder blackThreshold
                in case scanLeft isBlack width height bytesPerPixel sampleStep minHits 0 of
                     None \<Rightarrow> None
                   | Some left \<Rightarrow>
                       (case scanRight isBlack width height bytesPerPixel sampleStep minHits left
                               (width - 1) of
                          None \<Rightarrow> None
                        | Some right \<Rightarrow>
                            if left \<ge> width \<or> right < 0 \<or> right < left
                            then Some (Inr \<lparr>bounds_left = 0, bounds_right = width - 1\<rparr>)
                            else Some (Inr \<lparr>bounds_left = left, bounds_right = right\<rparr>))))"

text \<open>
  The typed-array primitives of \<open>cropHorizontalBuffer\<close>: \<open>new Uint8Array(n)\<close> (zero-filled; a
  negative length throws), \<open>src.subarray(start, stop)\<close> (negative indices count from the
  end, both are clamped to the view) and \<open>out.set(source, offset)\<close> (throws when the source
  does not fit). The allocation limit of the engine is not part of the model.
\<close>

definition new_Uint8Array :: "int \<Rightarrow> js_error + byte list" where
  "new_Uint8Array n = (if n < 0 then Inl RangeError else Inr (replicate (nat n) 0))"

definition subarray :: "byte list \<Rightarrow> int \<Rightarrow> int \<Rightarrow> byte list" where
  "subarray src start stop =
     (let len = int (length src);
          first = (if start < 0 then max (len + start) 0 else min start len);
          final = (if stop < 0 then max (len + stop) 0 else min stop len)
      in take (nat (final - first)) (drop (nat first) src))"

definition typed_set :: "byte list \<Rightarrow> byte list \<Rightarrow> int \<Rightarrow> js_error + byte list" where
  "typed_set target source offset =
     (if offset < 0 \<or> int (length source) + offset > int (length target) then Inl RangeError
      else Inr (take (nat offset) target @ source @ drop (nat offset + length source) target))"

text \<open>The row loop \<open>for (let y = 0; y < height; y++)\<close> of \<open>cropHorizontalBuffer\<close>.\<close>

function cropRows ::
  "byte list \<Rightarrow> int \<Rightarrow> int \<Rightarrow> int \<Rightarrow> int \<Rightarrow> int \<Rightarrow> int \<Rightarrow> byte list \<Rightarrow> js_error + byte list" where
  "cropRows src width height left cropWidth bytesPerPixel y out =
     (if y < height
      then (let srcRowStart = (y * width + left) * bytesPerPixel;
                dstRowStart = y * cropWidth * bytesPerPixel
            in case typed_set out
                      (subarray src srcRowStart (srcRowStart + cropWidth * bytesPerPixel))
                      dstRowStart of
                 Inl e \<Rightarrow> Inl e
               | Inr out' \<Rightarrow> cropRows src width height left cropWidth bytesPerPixel (y + 1) out')
      else Inr out)"
  by pat_completeness auto
termination
  by (relation "measure (\<lambda>(src, width, height, left, cropWidth, bytesPerPixel, y, out).
        nat (height - y))") auto

declare cropRows.simps [simp del]

definition cropHorizontalBuffer ::
  "byte list \<Rightarrow> int \<Rightarrow> int \<Rightarrow> int \<Rightarrow> int \<Rightarrow> TrimOptions \<Rightarrow> js_error + Cropped" where
  "cropHorizontalBuffer buffer width height left right options =
     (let bytesPerPixel = (case bytesPerPixel_opt options of None \<Rightarrow> 4 | Some v \<Rightarrow> v);
          src = buffer;
          cropWidth = max 0 (right - left + 1)
      in case new_Uint8Array (cropWidth * height * bytesPerPixel) of
           Inl e \<Rightarrow> Inl e
         | Inr out \<Rightarrow>
             if cropWidth = 0 \<or> width = 0 \<or> height = 0
             then Inr \<lparr>crop_buffer = out, crop_width = cropWidth, crop_height = height\<rparr>
             else (case cropRows src width height left cropWidth bytesPerPixel 0 out of
                     Inl e \<Rightarrow> Inl e
                   | Inr out' \<Rightarrow>
                       Inr \<lparr>crop_buffer = out', crop_width = cropWidth, crop_height = height\<rparr>))"

text \<open>The options objects used below: no property set.\<close>

definition noRenderOptions :: Code128RenderOptions where
  "noRenderOptions = \<lparr>moduleWidth_opt = None, height_opt = None, quietZone_opt = None,
     background_opt = None, barColor_opt = None, displayValue_opt = None, fontFamily_opt = None,
     fontSize_opt = None, textMargin_opt = None\<rparr>"

definition noTrimOptions :: TrimOptions where
  "noTrimOptions = \<lparr>bytesPerPixel_opt = None, pixelOrder_opt = None, blackThreshold_opt = None,
     minCoverageRatio_opt = None, sampleStep_opt = None\<rparr>"

section \<open>Vocabulary of the claims\<close>

text \<open>
  The rows sampled at stride \<open>sampleStep\<close> down a column of \<open>height\<close> rows, and the inked
  columns: a column is inked when the number of its sampled pixels that \<open>isBlackAtIndex\<close>
  accepts reaches \<open>minHits\<close>.
\<close>

definition sampledRows :: "int \<Rightarrow> int \<Rightarrow> int list" where
  "sampledRows height sampleStep = [y \<leftarrow> [0..height - 1]. y mod sampleStep = 0]"

definition columnInked :: "(int \<Rightarrow> bool) \<Rightarrow> int \<Rightarrow> int \<Rightarrow> int \<Rightarrow> int \<Rightarrow> int \<Rightarrow> bool" where
  "columnInked isBlack width height sampleStep minHits x =
     (minHits \<le> int (length [y \<leftarrow> sampledRows height sampleStep. isBlack ((y * width + x) * 4)]))"

text \<open>The bytes of a buffer from index \<open>a\<close> up to, not including, index \<open>b\<close>.\<close>

definition byteSpan :: "byte list \<Rightarrow> int \<Rightarrow> int \<Rightarrow> byte list" where
  "byteSpan xs a b = take (nat (b - a)) (drop (nat a) xs)"

text \<open>Whether the inner loop of column \<open>x\<close> ends with \<open>hits >= minHits\<close> (the test after the
  loop in both scans); \<open>None\<close> when the loop does not end.\<close>

definition columnReaches ::
  "(int \<Rightarrow> bool) \<Rightarrow> int \<Rightarrow> int \<Rightarrow> int \<Rightarrow> int \<Rightarrow> int \<Rightarrow> int \<Rightarrow> bool option" where
  "columnReaches isBlack width height bytesPerPixel sampleStep minHits x =
     map_option (\<lambda>hits. hits \<ge> minHits)
       (columnHits (\<lambda>y. isBlack ((y * width + x) * bytesPerPixel)) height sampleStep minHits 0 0)"

text \<open>The scan parameters that \<open>computeHorizontalBounds\<close> reads from its options, and the
  inked columns of a buffer under these parameters.\<close>

definition scanIsBlack :: "byte list \<Rightarrow> TrimOptions \<Rightarrow> int \<Rightarrow> bool" where
  "scanIsBlack bytes options =
     isBlackAtIndex bytes (case pixelOrder_opt options of None \<Rightarrow> RGBA | Some v \<Rightarrow> v)
       (case blackThreshold_opt options of None \<Rightarrow> 64 | Some v \<Rightarrow> v)"

definition scanStep :: "TrimOptions \<Rightarrow> int" where
  "scanStep options = (case sampleStep_opt options of None \<Rightarrow> 1 | Some v \<Rightarrow> v)"

definition scanMinHits :: "int \<Rightarrow> TrimOptions \<Rightarrow> int" where
  "scanMinHits height options =
     max 1 \<lfloor>of_int height
            * max 0 (min 1 (case minCoverageRatio_opt options of None \<Rightarrow> 2 / 100 | Some v \<Rightarrow> v))\<rfloor>"

definition inkedColumn :: "byte list \<Rightarrow> int \<Rightarrow> int \<Rightarrow> TrimOptions \<Rightarrow> int \<Rightarrow> bool" where
  "inkedColumn bytes width height options x =
     columnInked (scanIsBlack bytes options) width height (scanStep options)
       (scanMinHits height options) x"

text \<open>The domain of code set B: the code units 32..126.\<close>

definition inSetB :: "code_unit \<Rightarrow> bool" where
  "inSetB c = (32 \<le> charCode c \<and> charCode c \<le> 126)"

section \<open>Properties of the encoder\<close>

lemma pushCodes_eq: "pushCodes codes s = codes @ map (\<lambda>c. charCode c - 32) s"
  by (induction s arbitrary: codes) simp_all

lemma checksumFrom_eq:
  "checksumFrom acc k s = acc + (\<Sum>i<length s. (charCode (s ! i) - 32) * (int (k + i) + 1))"
proof (induction s arbitrary: acc k)
  case Nil
  then show ?case by simp
next
  case (Cons c cs)
  have "(\<Sum>i<length (c # cs). (charCode ((c # cs) ! i) - 32) * (int (k + i) + 1)) =
        (charCode c - 32) * (int k + 1)
        + (\<Sum>i<length cs. (charCode (cs ! i) - 32) * (int (Suc k + i) + 1))"
    using sum.lessThan_Suc_shift
            [of "\<lambda>i. (charCode ((c # cs) ! i) - 32) * (int (k + i) + 1)" "length cs"]
    by simp
  then show ?case
    by (simp add: Cons.IH)
qed

lemma checksumFrom_nonneg:
  "0 \<le> acc \<Longrightarrow> \<forall>c\<in>set s. 32 \<le> charCode c \<Longrightarrow> 0 \<le> checksumFrom acc k s"
  by (induction s arbitrary: acc k) simp_all

lemma length_CODE128_PATTERNS: "length CODE128_PATTERNS = 107"
  by (simp add: CODE128_PATTERNS_def)

lemma CODE128_PATTERNS_nonempty: "\<forall>p\<in>set CODE128_PATTERNS. p \<noteq> []"
  by (simp add: CODE128_PATTERNS_def)

lemma patternAt_Some:
  assumes "0 \<le> code" "code < 107"
  shows "\<exists>p. patternAt code = Some p \<and> p \<noteq> [] \<and> p \<in> set CODE128_PATTERNS"
proof -
  have "nat code < length CODE128_PATTERNS"
    using assms by (simp add: length_CODE128_PATTERNS)
  then have "CODE128_PATTERNS ! nat code \<in> set CODE128_PATTERNS"
    by (rule nth_mem)
  then show ?thesis
    using assms CODE128_PATTERNS_nonempty by (simp add: patternAt_def length_CODE128_PATTERNS)
qed

lemma modulesFrom_total:
  "\<forall>code\<in>set codes. 0 \<le> code \<and> code < 107 \<Longrightarrow> \<exists>ms. modulesFrom acc codes = Inr ms"
proof (induction codes arbitrary: acc)
  case Nil
  then show ?case by simp
next
  case (Cons code codes)
  then obtain p where "patternAt code = Some p" "p \<noteq> []"
    using patternAt_Some [of code] by auto
  then show ?case using Cons by simp
qed

lemma assertFrom_ok: "\<forall>c\<in>set s. inSetB c \<Longrightarrow> assertFrom k s = Inr ()"
  by (induction s arbitrary: k) (auto simp: inSetB_def Let_def)

lemma assertFrom_first_bad:
  "i < length s \<Longrightarrow> \<not> inSetB (s ! i) \<Longrightarrow> \<forall>j<i. inSetB (s ! j) \<Longrightarrow>
   assertFrom k s = Inl (Error (unsupportedMessage (k + i) (charCode (s ! i))))"
proof (induction s arbitrary: k i)
  case Nil
  then show ?case by simp
next
  case (Cons c cs)
  show ?case
  proof (cases i)
    case 0
    with Cons.prems show ?thesis by (auto simp: inSetB_def Let_def)
  next
    case (Suc i')
    from Cons.prems Suc have c: "inSetB c" by auto
    have "assertFrom (Suc k) cs = Inl (Error (unsupportedMessage (Suc k + i') (charCode (cs ! i'))))"
      using Cons.prems Suc by (intro Cons.IH) auto
    with c Suc show ?thesis by (auto simp: inSetB_def Let_def)
  qed
qed

lemma js_rem_nonneg: "0 \<le> a \<Longrightarrow> js_rem a 103 = a mod 103"
  by (simp add: js_rem_def)

text \<open>
  C1. For a string whose code units all lie in 32..126, \<open>computeCodesForSetB\<close> returns 104,
  then \<open>charCodeAt(i) - 32\<close> for each position in order, then the checksum
  \<open>(104 + \<Sum> (charCodeAt(i) - 32) * (i + 1)) mod 103\<close>, then 106. So the sequence has
  \<open>n + 3\<close> codes, starts with 104, ends with 106, and the checksum lies in 0..102.
\<close>

theorem codes_for_set_b:
  assumes "\<forall>c\<in>set s. 32 \<le> charCode c \<and> charCode c \<le> 126"
  shows "computeCodesForSetB s =
           [104] @ map (\<lambda>c. charCode c - 32) s
           @ [(104 + (\<Sum>i<length s. (charCode (s ! i) - 32) * (int i + 1))) mod 103, 106]
         \<and> length (computeCodesForSetB s) = length s + 3
         \<and> hd (computeCodesForSetB s) = 104
         \<and> last (computeCodesForSetB s) = 106
         \<and> 0 \<le> (104 + (\<Sum>i<length s. (charCode (s ! i) - 32) * (int i + 1))) mod 103
         \<and> (104 + (\<Sum>i<length s. (charCode (s ! i) - 32) * (int i + 1))) mod 103 \<le> 102"
proof -
  have nn: "0 \<le> checksumFrom 104 0 s"
    using assms by (intro checksumFrom_nonneg) auto
  have eq: "computeCodesForSetB s =
           [104] @ map (\<lambda>c. charCode c - 32) s
           @ [(104 + (\<Sum>i<length s. (charCode (s ! i) - 32) * (int i + 1))) mod 103, 106]"
    using nn checksumFrom_eq [of 104 0 s]
    by (simp add: computeCodesForSetB_def START_CODE_B_def STOP_CODE_def pushCodes_eq js_rem_nonneg)
  show ?thesis
    unfolding eq by simp
qed

theorem codes_for_set_b_witness:
  "list_all (\<lambda>c. 32 \<le> charCode c \<and> charCode c \<le> 126) (lit ''Hi'')
   \<and> computeCodesForSetB (lit ''Hi'') = [104, 40, 73, 84, 106]"
  using codes_for_set_b [of "lit ''Hi''"]
  by (simp add: lit_def charCode_def lessThan_Suc)


lemma computeCodes_range:
  assumes "\<forall>c\<in>set s. inSetB c"
  shows "\<forall>code\<in>set (computeCodesForSetB s). 0 \<le> code \<and> code < 107"
proof -
  have "0 \<le> checksumFrom 104 0 s"
    using assms by (intro checksumFrom_nonneg) (auto simp: inSetB_def)
  then show ?thesis
    using assms
    by (auto simp: computeCodesForSetB_def START_CODE_B_def STOP_CODE_def pushCodes_eq
        js_rem_nonneg inSetB_def)
qed

lemma encode_valid:
  assumes ok: "\<forall>c\<in>set text. inSetB c"
  shows "\<exists>modules. encodeCode128BToModules text = Inr modules"
proof -
  have "assertCodeSetBCompatible text = Inr ()"
    using ok by (simp add: assertCodeSetBCompatible_def assertFrom_ok)
  moreover obtain ms where "modulesFrom [] (computeCodesForSetB text) = Inr ms"
    using modulesFrom_total [OF computeCodes_range [OF ok]] by blast
  ultimately show ?thesis
    by (simp add: encodeCode128BToModules_def codesToModules_def)
qed

lemma encode_invalid:
  assumes "i < length text" and "\<not> inSetB (text ! i)" and "\<forall>j<i. inSetB (text ! j)"
  shows "encodeCode128BToModules text = Inl (Error (unsupportedMessage i (charCode (text ! i))))"
proof -
  have "assertFrom 0 text = Inl (Error (unsupportedMessage (0 + i) (charCode (text ! i))))"
    using assms by (intro assertFrom_first_bad) auto
  then show ?thesis
    by (simp add: encodeCode128BToModules_def assertCodeSetBCompatible_def)
qed

lemma assertFrom_Inr: "assertFrom k s = Inr u \<Longrightarrow> \<forall>c\<in>set s. inSetB c"
  by (induction s arbitrary: k) (auto simp: inSetB_def Let_def split: if_splits)

lemma encode_Inr_valid:
  assumes "encodeCode128BToModules text = Inr modules"
  shows "\<forall>c\<in>set text. inSetB c"
proof -
  from assms obtain u where "assertCodeSetBCompatible text = Inr u"
    by (auto simp: encodeCode128BToModules_def split: sum.splits)
  then show ?thesis
    by (simp add: assertCodeSetBCompatible_def assertFrom_Inr)
qed

text \<open>
  C8. \<open>encodeCode128BToModules\<close> returns modules exactly when every code unit of the text lies
  in 32..126; otherwise it returns no modules but the error whose message names the 0-based
  index and the code (in upper-case hexadecimal) of the first code unit outside 32..126.
\<close>

theorem encode_fails_on_first_unsupported:
  "((\<exists>modules. encodeCode128BToModules text = Inr modules) \<longleftrightarrow> (\<forall>c\<in>set text. inSetB c))
   \<and> (\<forall>i<length text. \<not> inSetB (text ! i) \<and> (\<forall>j<i. inSetB (text ! j)) \<longrightarrow>
        encodeCode128BToModules text
          = Inl (Error (unsupportedMessage i (charCode (text ! i)))))"
  using encode_valid encode_invalid encode_Inr_valid by blast

theorem encode_fails_on_first_unsupported_witness:
  "(\<exists>modules. encodeCode128BToModules (lit ''ok'') = Inr modules)
   \<and> encodeCode128BToModules [72, 233, 10]
       = Inl (Error (lit ''Character at index 1 (U+E9) not supported by Code 128-B''))"
proof
  show "\<exists>modules. encodeCode128BToModules (lit ''ok'') = Inr modules"
    using encode_fails_on_first_unsupported [of "lit ''ok''"]
    by (simp add: inSetB_def charCode_def lit_def)
  show "encodeCode128BToModules [72, 233, 10]
       = Inl (Error (lit ''Character at index 1 (U+E9) not supported by Code 128-B''))"
    using encode_fails_on_first_unsupported [of "[72, 233, 10]", THEN conjunct2, rule_format, of 1]
    by (simp add: inSetB_def charCode_def lit_def unsupportedMessage_def intToString_def
        natToString.simps toUpperCase_def digit_unit_def)
qed

section \<open>Properties of the renderer\<close>




lemma encode_A:
  "encodeCode128BToModules (lit ''A'')
     = Inr [2, 1, 1, 2, 1, 4, 1, 1, 1, 3, 2, 3, 1, 3, 1, 1, 2, 3, 2, 3, 3, 1, 1, 1, 2]"
  by (simp add: encodeCode128BToModules_def assertCodeSetBCompatible_def lit_def charCode_def
      codesToModules_def computeCodesForSetB_def START_CODE_B_def STOP_CODE_def js_rem_def
      patternAt_def CODE128_PATTERNS_def digitNumber_def)

lemma numberToString_numeral: "numberToString (numeral k) = natToString 10 (numeral k)"
  by (simp add: numberToString_def intToString_def)

lemma natToString_digit: "n < 10 \<Longrightarrow> natToString 10 n = [of_nat (48 + n)]"
  by (simp add: natToString.simps digit_unit_def)

lemma natToString_step:
  "10 \<le> n \<Longrightarrow> natToString 10 n = natToString 10 (n div 10) @ [of_nat (48 + n mod 10)]"
  by (subst natToString.simps) (simp add: digit_unit_def)

lemmas numberToString_eval = numberToString_numeral natToString_digit natToString_step




text \<open>What \<open>escapeXml\<close> returns holds none of \<open>< > " '\<close>: the text and the font family,
  which pass through it, cannot break the markup.\<close>

lemma replaceAll_append: "replaceAll c r (xs @ ys) = replaceAll c r xs @ replaceAll c r ys"
  by (simp add: replaceAll_def)

lemma escapeXml_append: "escapeXml (xs @ ys) = escapeXml xs @ escapeXml ys"
  by (simp add: escapeXml_def replaceAll_append)

lemma escapeXml_single:
  \<open>escapeXml [c] =
     (if c = 38 then lit ''&amp;'' else if c = 60 then lit ''&lt;'' else if c = 62 then lit ''&gt;''
      else if c = 34 then lit ''&quot;'' else if c = 39 then lit ''&apos;'' else [c])\<close>
  by (simp add: escapeXml_def replaceAll_def lit_def)

lemma escapeXml_no_markup: "set (escapeXml s) \<inter> {60, 62, 34, 39} = {}"
proof (induction s)
  case Nil
  then show ?case by (simp add: escapeXml_def replaceAll_def)
next
  case (Cons c cs)
  have "escapeXml (c # cs) = escapeXml [c] @ escapeXml cs"
    using escapeXml_append [of "[c]" cs] by simp
  moreover have "set (escapeXml [c]) \<inter> {60, 62, 34, 39} = {}"
    by (simp add: escapeXml_single lit_def)
  ultimately show ?case using Cons by auto
qed

lemma bars_A:
  "barsFrom 2 60 c 20 True [] [2, 1, 1, 2, 1, 4, 1, 1, 1, 3, 2, 3, 1, 3, 1, 1, 2, 3, 2, 3, 3, 1, 1, 1, 2]
   = barRect 20 4 60 c @ barRect 26 2 60 c @ barRect 32 2 60 c @ barRect 42 2 60 c
     @ barRect 46 2 60 c @ barRect 54 4 60 c @ barRect 64 2 60 c @ barRect 72 2 60 c
     @ barRect 76 4 60 c @ barRect 86 4 60 c @ barRect 96 6 60 c @ barRect 104 2 60 c
     @ barRect 108 4 60 c"
  by (simp add: Let_def)

text \<open>
  C6. The markup for the text \<open>A\<close> with the background \<open><\<close> and the bar colour \<open>"\<close>:
  both strings stand in the \<open>fill\<close> attributes as they are, not escaped.
\<close>

theorem render_embeds_colors_unescaped:
  \<open>renderCode128BToSvg (lit ''A'')
     (noRenderOptions\<lparr>background_opt := Some (lit ''<''), barColor_opt := Some (lit ''"'')\<rparr>)
   = Inr (lit ''<?xml version="1.0" encoding="UTF-8"?>'' @ [10]
         @ lit ''<svg xmlns="http://www.w3.org/2000/svg" width="132" height="60" viewBox="0 0 132 60" shape-rendering="crispEdges">''
         @ lit ''<rect x="0" y="0" width="100%" height="100%" fill="<"/>''
         @ lit ''<rect x="20" y="0" width="4" height="60" fill="""/>''
         @ lit ''<rect x="26" y="0" width="2" height="60" fill="""/>''
         @ lit ''<rect x="32" y="0" width="2" height="60" fill="""/>''
         @ lit ''<rect x="42" y="0" width="2" height="60" fill="""/>''
         @ lit ''<rect x="46" y="0" width="2" height="60" fill="""/>''
         @ lit ''<rect x="54" y="0" width="4" height="60" fill="""/>''
         @ lit ''<rect x="64" y="0" width="2" height="60" fill="""/>''
         @ lit ''<rect x="72" y="0" width="2" height="60" fill="""/>''
         @ lit ''<rect x="76" y="0" width="4" height="60" fill="""/>''
         @ lit ''<rect x="86" y="0" width="4" height="60" fill="""/>''
         @ lit ''<rect x="96" y="0" width="6" height="60" fill="""/>''
         @ lit ''<rect x="104" y="0" width="2" height="60" fill="""/>''
         @ lit ''<rect x="108" y="0" width="4" height="60" fill="""/>''
         @ lit ''</svg>'')\<close>
proof -
  have \<open>renderCode128BToSvg (lit ''A'')
     (noRenderOptions\<lparr>background_opt := Some (lit ''<''), barColor_opt := Some (lit ''"'')\<rparr>)
   = Inr (lit ''<?xml version="1.0" encoding="UTF-8"?>'' @ [10]
          @ lit ''<svg xmlns="http://www.w3.org/2000/svg" width="'' @ numberToString 132
          @ lit ''" height="'' @ numberToString 60 @ lit ''" viewBox="0 0 ''
          @ numberToString 132 @ lit '' '' @ numberToString 60
          @ lit ''" shape-rendering="crispEdges">''
          @ lit ''<rect x="0" y="0" width="100%" height="100%" fill="'' @ lit ''<'' @ lit ''"/>''
          @ barsFrom 2 60 (lit ''"'') 20 True []
              [2, 1, 1, 2, 1, 4, 1, 1, 1, 3, 2, 3, 1, 3, 1, 1, 2, 3, 2, 3, 3, 1, 1, 1, 2]
          @ lit ''</svg>'')\<close>
    unfolding renderCode128BToSvg_def encode_A
    by (simp add: Let_def noRenderOptions_def del: barsFrom.simps)
  then show ?thesis
    unfolding bars_A barRect_def
    by (simp add: numberToString_eval lit_def)
qed

section \<open>Properties of the cropper\<close>


lemma subarray_in_range:
  "0 \<le> a \<Longrightarrow> a \<le> b \<Longrightarrow> b \<le> int (length src) \<Longrightarrow> subarray src a b = byteSpan src a b"
  by (auto simp: subarray_def byteSpan_def Let_def min_def max_def)

lemma length_byteSpan:
  "0 \<le> a \<Longrightarrow> a \<le> b \<Longrightarrow> b \<le> int (length xs) \<Longrightarrow> int (length (byteSpan xs a b)) = b - a"
  by (auto simp: byteSpan_def)

lemma typed_set_ok:
  "0 \<le> off \<Longrightarrow> int (length s) + off \<le> int (length t) \<Longrightarrow>
   typed_set t s off = Inr (take (nat off) t @ s @ drop (nat off + length s) t)"
  by (simp add: typed_set_def)

lemma length_set_result:
  "0 \<le> off \<Longrightarrow> int (length s) + off \<le> int (length t) \<Longrightarrow>
   length (take (nat off) t @ s @ drop (nat off + length s) t) = length t"
  by auto



lemma byteSpan_set_before:
  "0 \<le> a \<Longrightarrow> a \<le> b \<Longrightarrow> b \<le> off \<Longrightarrow> off \<le> int (length t) \<Longrightarrow>
   byteSpan (take (nat off) t @ r) a b = byteSpan t a b"
  by (simp add: byteSpan_def take_drop min_def)

lemma byteSpan_set_at:
  "0 \<le> off \<Longrightarrow> off \<le> int (length t) \<Longrightarrow> n = int (length s) \<Longrightarrow>
   byteSpan (take (nat off) t @ s @ r) off (off + n) = s"
  by (simp add: byteSpan_def)

lemma cropRows_rows:
  assumes "0 \<le> y" "y \<le> h" "0 < cw" "0 \<le> l" "l + cw \<le> w"
    "int (length out) = cw * h * 4" "int (length src) = w * h * 4"
    "\<forall>y'. 0 \<le> y' \<and> y' < y \<longrightarrow>
       byteSpan out (y' * cw * 4) ((y' + 1) * cw * 4)
       = byteSpan src ((y' * w + l) * 4) ((y' * w + l + cw) * 4)"
  shows "\<exists>out'. cropRows src w h l cw 4 y out = Inr out' \<and> length out' = length out
          \<and> (\<forall>y'. 0 \<le> y' \<and> y' < h \<longrightarrow>
       byteSpan out' (y' * cw * 4) ((y' + 1) * cw * 4)
       = byteSpan src ((y' * w + l) * 4) ((y' * w + l + cw) * 4))"
  using assms
proof (induction src w h l cw "4 :: int" y out rule: cropRows.induct)
  case (1 src w h l cw y out)
  show ?case
  proof (cases "y < h")
    case False
    with "1.prems" have "y = h" by simp
    with "1.prems" show ?thesis by (subst cropRows.simps) simp
  next
    case True
    let ?start = "(y * w + l) * 4"
    let ?off = "y * cw * 4"
    define s where "s = subarray src ?start (?start + cw * 4)"
    have w0: "0 \<le> w" using "1.prems" by simp
    have start0: "0 \<le> ?start"
      using "1.prems" w0 by simp
    have "(y + 1) * w \<le> h * w"
      using True w0 by (intro mult_right_mono) auto
    then have stop: "?start + cw * 4 \<le> int (length src)"
      using "1.prems" by (simp add: algebra_simps)
    have s_span: "s = byteSpan src ?start (?start + cw * 4)"
      unfolding s_def using start0 _ stop by (rule subarray_in_range) (use "1.prems" in simp)
    have ls: "int (length s) = cw * 4"
      using length_byteSpan [OF start0 _ stop] "1.prems" by (simp add: s_span)
    have off0: "0 \<le> ?off"
      using "1.prems" by simp
    have "(y + 1) * cw \<le> h * cw"
      using True "1.prems" by (intro mult_right_mono) auto
    then have off_le: "?off + cw * 4 \<le> int (length out)"
      using "1.prems" by (simp add: algebra_simps)
    have fit: "int (length s) + ?off \<le> int (length out)"
      using off_le ls by simp
    define out1 where "out1 = take (nat ?off) out @ s @ drop (nat ?off + length s) out"
    have set: "typed_set out s ?off = Inr out1"
      unfolding out1_def using off0 fit by (rule typed_set_ok)
    have len1: "length out1 = length out"
      unfolding out1_def using off0 fit by (rule length_set_result)
    have inv: "byteSpan out1 (y' * cw * 4) ((y' + 1) * cw * 4)
       = byteSpan src ((y' * w + l) * 4) ((y' * w + l + cw) * 4)"
      if y': "0 \<le> y'" "y' < y + 1" for y'
    proof (cases "y' = y")
      case True
      have "byteSpan out1 ?off (?off + cw * 4) = s"
        unfolding out1_def using off0 off_le ls by (intro byteSpan_set_at) auto
      then show ?thesis
        using True s_span by (simp add: algebra_simps)
    next
      case False
      with y' have lt: "y' < y" by simp
      have "(y' + 1) * cw \<le> y * cw"
        using lt "1.prems" by (intro mult_right_mono) auto
      then have "(y' + 1) * cw * 4 \<le> ?off" by simp
      moreover have "0 \<le> y' * cw * 4" using y' "1.prems" by simp
      moreover have "y' * cw * 4 \<le> (y' + 1) * cw * 4" using "1.prems" by (simp add: algebra_simps)
      ultimately have "byteSpan out1 (y' * cw * 4) ((y' + 1) * cw * 4)
          = byteSpan out (y' * cw * 4) ((y' + 1) * cw * 4)"
        unfolding out1_def using off_le "1.prems" by (intro byteSpan_set_before) auto
      then show ?thesis
        using "1.prems" y' lt by simp
    qed
    have "\<exists>out'. cropRows src w h l cw 4 (y + 1) out1 = Inr out' \<and> length out' = length out1
          \<and> (\<forall>y'. 0 \<le> y' \<and> y' < h \<longrightarrow>
       byteSpan out' (y' * cw * 4) ((y' + 1) * cw * 4)
       = byteSpan src ((y' * w + l) * 4) ((y' * w + l + cw) * 4))"
      using True set "1.prems" len1 inv
      by (intro "1.hyps" [where x = ?start and xa = ?off]) (auto simp: s_def)
    then show ?thesis
      using True set len1 by (subst cropRows.simps) (simp add: s_def Let_def)
  qed
qed

lemma crop_rows_general:
  assumes len: "int (length buffer) = w * h * 4" and L: "0 \<le> L" "L \<le> R" "R < w" and h: "0 \<le> h"
    and bpp: "bytesPerPixel_opt options = None \<or> bytesPerPixel_opt options = Some 4"
  shows "\<exists>out. cropHorizontalBuffer buffer w h L R options
             = Inr \<lparr>crop_buffer = out, crop_width = R - L + 1, crop_height = h\<rparr>
          \<and> int (length out) = (R - L + 1) * h * 4
          \<and> (\<forall>y. 0 \<le> y \<and> y < h \<longrightarrow>
                byteSpan out (y * (R - L + 1) * 4) ((y + 1) * (R - L + 1) * 4)
                = byteSpan buffer ((y * w + L) * 4) ((y * w + R + 1) * 4))"
proof -
  define cw where "cw = R - L + 1"
  have cw: "0 < cw" "max 0 (R - L + 1) = cw" "L + cw \<le> w"
    using L by (simp_all add: cw_def)
  have b4: "(case bytesPerPixel_opt options of None \<Rightarrow> 4 | Some v \<Rightarrow> v) = (4 :: int)"
    using bpp by auto
  have n0: "0 \<le> cw * h * 4"
    using cw h by simp
  define out0 :: "byte list" where "out0 = replicate (nat (cw * h * 4)) 0"
  have alloc: "new_Uint8Array (cw * h * 4) = Inr out0"
    using n0 by (simp add: new_Uint8Array_def out0_def)
  have len0: "int (length out0) = cw * h * 4"
    using n0 by (simp add: out0_def)
  have w0: "w \<noteq> 0" using L by simp
  show ?thesis
  proof (cases "h = 0")
    case True
    then show ?thesis
      using alloc len0 cw(1)
      by (auto simp: cropHorizontalBuffer_def Let_def b4 cw(2) simp flip: cw_def)
  next
    case False
    obtain out' where r: "cropRows buffer w h L cw 4 0 out0 = Inr out'"
      and l: "length out' = length out0"
      and rows: "\<forall>y'. 0 \<le> y' \<and> y' < h \<longrightarrow>
         byteSpan out' (y' * cw * 4) ((y' + 1) * cw * 4)
         = byteSpan buffer ((y' * w + L) * 4) ((y' * w + L + cw) * 4)"
    proof -
      have pre: "\<forall>y'. 0 \<le> y' \<and> y' < (0::int) \<longrightarrow>
         byteSpan out0 (y' * cw * 4) ((y' + 1) * cw * 4)
         = byteSpan buffer ((y' * w + L) * 4) ((y' * w + L + cw) * 4)"
        by auto
      show ?thesis
        using cropRows_rows [OF order_refl h cw(1) L(1) cw(3) len0 len pre] that by blast
    qed
    have "cropHorizontalBuffer buffer w h L R options
             = Inr \<lparr>crop_buffer = out', crop_width = cw, crop_height = h\<rparr>"
      using alloc r False w0 cw(1)
      by (simp add: cropHorizontalBuffer_def Let_def b4 cw(2))
    moreover have "int (length out') = cw * h * 4"
      using l len0 by simp
    moreover have "L + cw = R + 1" by (simp add: cw_def)
    ultimately show ?thesis
      using rows by (auto simp: cw_def algebra_simps)
  qed
qed

lemma blocks_eq:
  assumes "length xs = n * k" "length ys = n * k"
    and "\<forall>y<n. take k (drop (y * k) xs) = take k (drop (y * k) ys)"
  shows "xs = ys"
proof (rule nth_equalityI)
  show "length xs = length ys" using assms by simp
next
  fix i assume i: "i < length xs"
  then have k: "0 < k" using assms(1) by (cases k) auto
  have y: "i div k < n"
    using i assms(1) k by (simp add: less_mult_imp_div_less)
  have j: "i mod k < k" using k by simp
  have idx: "i div k * k + i mod k = i" by simp
  have le: "i div k * k \<le> length xs" "i div k * k \<le> length ys"
    using i assms(1,2) idx by linarith+
  have "take k (drop (i div k * k) xs) ! (i mod k) = drop (i div k * k) xs ! (i mod k)"
    using j by simp
  also have "\<dots> = xs ! (i div k * k + i mod k)"
    using le(1) by (rule nth_drop)
  finally have x: "take k (drop (i div k * k) xs) ! (i mod k) = xs ! i"
    by (simp only: idx)
  have "take k (drop (i div k * k) ys) ! (i mod k) = drop (i div k * k) ys ! (i mod k)"
    using j by simp
  also have "\<dots> = ys ! (i div k * k + i mod k)"
    using le(2) by (rule nth_drop)
  finally have y': "take k (drop (i div k * k) ys) ! (i mod k) = ys ! i"
    by (simp only: idx)
  have "take k (drop (i div k * k) xs) = take k (drop (i div k * k) ys)"
    using assms(3) y by simp
  then show "xs ! i = ys ! i"
    using x y' by simp
qed

lemma byteSpan_nat:
  "byteSpan xs (int y * int k) ((int y + 1) * int k) = take k (drop (y * k) xs)"
proof -
  have "(int y + 1) * int k - int y * int k = int k" by (simp add: algebra_simps)
  moreover have "nat (int y * int k) = y * k" by (simp add: nat_mult_distrib)
  ultimately show ?thesis by (simp add: byteSpan_def)
qed

lemma crop_full_width:
  assumes len: "int (length buffer) = w * h * 4" and w: "0 < w" and h: "0 \<le> h"
    and bpp: "bytesPerPixel_opt options = None \<or> bytesPerPixel_opt options = Some 4"
  shows "cropHorizontalBuffer buffer w h 0 (w - 1) options
           = Inr \<lparr>crop_buffer = buffer, crop_width = w, crop_height = h\<rparr>"
proof -
  obtain out where r: "cropHorizontalBuffer buffer w h 0 (w - 1) options
             = Inr \<lparr>crop_buffer = out, crop_width = w - 1 - 0 + 1, crop_height = h\<rparr>"
    and l: "int (length out) = (w - 1 - 0 + 1) * h * 4"
    and rows: "\<forall>y. 0 \<le> y \<and> y < h \<longrightarrow>
                byteSpan out (y * (w - 1 - 0 + 1) * 4) ((y + 1) * (w - 1 - 0 + 1) * 4)
                = byteSpan buffer ((y * w + 0) * 4) ((y * w + (w - 1) + 1) * 4)"
    using crop_rows_general [OF len _ _ _ h bpp, of 0 "w - 1"] w by auto
  define k where "k = nat (w * 4)"
  define n where "n = nat h"
  have k: "int k = w * 4" and n: "int n = h" using w h by (simp_all add: k_def n_def)
  have "int (length out) = int (n * k)"
    using l by (simp add: k n algebra_simps)
  then have "length out = n * k"
    by (simp only: of_nat_eq_iff)
  moreover have "int (length buffer) = int (n * k)"
    using len by (simp add: k n algebra_simps)
  then have "length buffer = n * k"
    by (simp only: of_nat_eq_iff)
  moreover have "\<forall>y<n. take k (drop (y * k) out) = take k (drop (y * k) buffer)"
  proof (intro allI impI)
    fix y assume "y < n"
    then have "0 \<le> int y \<and> int y < h" using n by simp
    then have "byteSpan out (int y * (w - 1 - 0 + 1) * 4) ((int y + 1) * (w - 1 - 0 + 1) * 4)
                = byteSpan buffer ((int y * w + 0) * 4) ((int y * w + (w - 1) + 1) * 4)"
      using rows by blast
    then have "byteSpan out (int y * int k) ((int y + 1) * int k)
                = byteSpan buffer (int y * int k) ((int y + 1) * int k)"
      by (simp add: k algebra_simps)
    then show "take k (drop (y * k) out) = take k (drop (y * k) buffer)"
      by (simp only: byteSpan_nat)
  qed
  ultimately have "out = buffer" by (rule blocks_eq)
  then show ?thesis using r by simp
qed

lemma crop_empty:
  assumes "right < left"
  shows "cropHorizontalBuffer buffer width height left right options
           = Inr \<lparr>crop_buffer = [], crop_width = 0, crop_height = height\<rparr>"
proof -
  have "max 0 (right - left + 1) = 0" using assms by simp
  then show ?thesis
    by (simp add: cropHorizontalBuffer_def Let_def new_Uint8Array_def)
qed


section \<open>Properties of the scanner\<close>

subsection \<open>The column loop\<close>

lemma columnHits_returns:
  assumes "1 \<le> step"
  shows "\<exists>r. columnHits f h step m y hits = Some r"
proof (induction "nat (h - y)" arbitrary: y hits rule: less_induct)
  case less
  show ?case
  proof (cases "y < h")
    case False
    then show ?thesis by (subst columnHits.simps) simp
  next
    case True
    then have "nat (h - (y + step)) < nat (h - y)"
      using assms by simp
    then have "\<exists>r. columnHits f h step m (y + step) k = Some r" for k
      by (rule less)
    then show ?thesis
      by (subst columnHits.simps) simp
  qed
qed

text \<open>The sampled rows from row \<open>y\<close> on.\<close>

lemma rows_from_rec:
  assumes "1 \<le> step" "y < h"
  shows "[r \<leftarrow> [y..h - 1]. (r - y) mod step = 0 \<and> P r]
         = (if P y then [y] else []) @ [r \<leftarrow> [y + step..h - 1]. (r - (y + step)) mod step = 0 \<and> P r]"
proof -
  have gap: "[r \<leftarrow> [y + 1..j]. (r - y) mod step = 0 \<and> P r] = []" if "j < y + step" for j
  proof -
    have "(r - y) mod step \<noteq> 0" if "r \<in> set [y + 1..j]" for r
    proof -
      from that \<open>j < y + step\<close> have "0 < r - y" "r - y < step" by auto
      then show ?thesis by simp
    qed
    then show ?thesis by (auto simp: filter_empty_conv)
  qed
  have same: "(r - (y + step)) mod step = (r - y) mod step" for r
    by (metis diff_diff_eq minus_mod_self2)
  have rest: "[r \<leftarrow> [y + 1..h - 1]. (r - y) mod step = 0 \<and> P r]
              = [r \<leftarrow> [y + step..h - 1]. (r - (y + step)) mod step = 0 \<and> P r]"
  proof (cases "y + step \<le> h - 1")
    case True
    have "[y + 1..h - 1] = [y + 1..y + step - 1] @ [y + step..h - 1]"
      using upto_split1 [of "y + 1" "y + step" "h - 1"] True assms by simp
    then show ?thesis
      using gap [of "y + step - 1"] by (simp add: same)
  next
    case False
    then have "[y + step..h - 1] = []" by simp
    moreover have "[r \<leftarrow> [y + 1..h - 1]. (r - y) mod step = 0 \<and> P r] = []"
      using gap [of "h - 1"] False by simp
    ultimately show ?thesis by simp
  qed
  have "[y..h - 1] = y # [y + 1..h - 1]"
    using assms by (simp add: upto_rec1)
  then show ?thesis
    using rest by simp
qed

lemma columnHits_counts:
  assumes "1 \<le> step" "hits < m"
  shows "columnHits f h step m y hits
         = Some (min m (hits + int (length [r \<leftarrow> [y..h - 1]. (r - y) mod step = 0 \<and> f r])))"
  using assms(2)
proof (induction "nat (h - y)" arbitrary: y hits rule: less_induct)
  case less
  show ?case
  proof (cases "y < h")
    case False
    then have "[y..h - 1] = []" by simp
    then show ?thesis
      using False less.prems by (subst columnHits.simps) simp
  next
    case True
    have dec: "nat (h - (y + step)) < nat (h - y)"
      using True assms by simp
    note rec = rows_from_rec [OF assms(1) True, of f]
    show ?thesis
    proof (cases "f y")
      case False
      then show ?thesis
        using True less.hyps [OF dec less.prems] rec by (subst columnHits.simps) simp
    next
      case black: True
      show ?thesis
      proof (cases "m \<le> hits + 1")
        case True
        then show ?thesis
          using \<open>y < h\<close> black rec less.prems by (subst columnHits.simps) (simp add: min_def)
      next
        case False
        then have "hits + 1 < m" by simp
        from less.hyps [OF dec this] show ?thesis
          using \<open>y < h\<close> black rec False by (subst columnHits.simps) (simp add: add.assoc)
      qed
    qed
  qed
qed

lemma columnHits_inked:
  assumes "1 \<le> step" "1 \<le> m"
  shows "\<exists>r. columnHits (\<lambda>y. isBlack ((y * w + x) * 4)) h step m 0 0 = Some r
           \<and> (m \<le> r \<longleftrightarrow> columnInked isBlack w h step m x)"
proof -
  have "0 < m" using assms by simp
  from columnHits_counts [OF assms(1) this, of "\<lambda>y. isBlack ((y * w + x) * 4)" h 0]
  show ?thesis
    by (simp add: columnInked_def sampledRows_def min_def)
qed

text \<open>With a step below 1, a column loop that ends has reached \<open>minHits\<close>.\<close>

lemma columnHits_stuck:
  assumes "columnHits f h step m y hits = Some r" "step \<le> 0" "y < h"
  shows "m \<le> r"
proof -
  have "step \<le> 0 \<longrightarrow> y < h \<longrightarrow> m \<le> r"
  proof (rule columnHits.raw_induct
      [where P = "\<lambda>f h step m y hits r. step \<le> 0 \<longrightarrow> y < h \<longrightarrow> m \<le> r", OF _ assms(1)])
    fix loop :: "(int \<Rightarrow> bool) \<Rightarrow> int \<Rightarrow> int \<Rightarrow> int \<Rightarrow> int \<Rightarrow> int \<Rightarrow> int option"
      and f :: "int \<Rightarrow> bool" and h step m y hits r :: int
    assume IH: "\<And>f h step m y hits r. loop f h step m y hits = Some r \<Longrightarrow>
                  step \<le> 0 \<longrightarrow> y < h \<longrightarrow> m \<le> r"
      and body: "(if y < h
        then if f y
             then if m \<le> hits + 1 then Some (hits + 1)
                  else loop f h step m (y + step) (hits + 1)
             else loop f h step m (y + step) hits
        else Some hits) = Some r"
    show "step \<le> 0 \<longrightarrow> y < h \<longrightarrow> m \<le> r"
    proof (intro impI)
      assume s: "step \<le> 0" and y: "y < h"
      then have y': "y + step < h" by simp
      show "m \<le> r"
        using body y IH [of f h step m "y + step" _ r] s y'
        by (auto split: if_splits)
    qed
  qed
  then show ?thesis using assms by simp
qed

lemma scanLeft_unfold:
  "scanLeft isBlack w h bpp step m l =
     (if l < w
      then (case columnReaches isBlack w h bpp step m l of
              None \<Rightarrow> None
            | Some True \<Rightarrow> Some l
            | Some False \<Rightarrow> scanLeft isBlack w h bpp step m (l + 1))
      else Some l)"
  by (subst scanLeft.simps) (simp add: columnReaches_def split: option.splits)

lemma scanRight_unfold:
  "scanRight isBlack w h bpp step m l r =
     (if r \<ge> l
      then (case columnReaches isBlack w h bpp step m r of
              None \<Rightarrow> None
            | Some True \<Rightarrow> Some r
            | Some False \<Rightarrow> scanRight isBlack w h bpp step m l (r - 1))
      else Some r)"
  by (subst scanRight.simps) (simp add: columnReaches_def split: option.splits)

lemma scanLeft_Some:
  assumes "scanLeft isBlack w h bpp step m l0 = Some l" "l0 \<le> w"
  shows "l0 \<le> l \<and> l \<le> w
         \<and> (l < w \<longrightarrow> columnReaches isBlack w h bpp step m l = Some True)
         \<and> (\<forall>x. l0 \<le> x \<and> x < l \<longrightarrow> columnReaches isBlack w h bpp step m x = Some False)"
  using assms
proof (induction isBlack w h bpp step m l0 rule: scanLeft.induct)
  case (1 isBlack w h bpp step m l0)
  show ?case
  proof (cases "l0 < w")
    case False
    with "1.prems" show ?thesis by (auto simp: scanLeft_unfold [of _ _ _ _ _ _ l0])
  next
    case True
    from "1.prems"(1) True
    consider "columnReaches isBlack w h bpp step m l0 = Some True" "l = l0"
      | "columnReaches isBlack w h bpp step m l0 = Some False"
        "scanLeft isBlack w h bpp step m (l0 + 1) = Some l"
      by (subst (asm) scanLeft_unfold) (auto split: option.splits bool.splits)
    then show ?thesis
    proof cases
      case 1
      then show ?thesis using True by auto
    next
      case 2
      obtain hits where hits: "columnHits (\<lambda>y. isBlack ((y * w + l0) * bpp)) h step m 0 0 = Some hits"
        "\<not> m \<le> hits"
        using 2(1) by (auto simp: columnReaches_def)
      have IH: "l0 + 1 \<le> l \<and> l \<le> w
         \<and> (l < w \<longrightarrow> columnReaches isBlack w h bpp step m l = Some True)
         \<and> (\<forall>x. l0 + 1 \<le> x \<and> x < l \<longrightarrow> columnReaches isBlack w h bpp step m x = Some False)"
        using "1.IH" [OF True hits 2(2)] True by simp
      have "columnReaches isBlack w h bpp step m x = Some False" if "l0 \<le> x" "x < l" for x
        using that IH 2(1) by (cases "x = l0") auto
      then show ?thesis using IH by auto
    qed
  qed
qed

lemma scanRight_Some:
  assumes "scanRight isBlack w h bpp step m l r0 = Some r" "l - 1 \<le> r0"
  shows "l - 1 \<le> r \<and> r \<le> r0
         \<and> (l \<le> r \<longrightarrow> columnReaches isBlack w h bpp step m r = Some True)
         \<and> (\<forall>x. r < x \<and> x \<le> r0 \<longrightarrow> columnReaches isBlack w h bpp step m x = Some False)"
  using assms
proof (induction isBlack w h bpp step m l r0 rule: scanRight.induct)
  case (1 isBlack w h bpp step m l r0)
  show ?case
  proof (cases "l \<le> r0")
    case False
    with "1.prems" show ?thesis by (auto simp: scanRight_unfold [of _ _ _ _ _ _ l r0])
  next
    case True
    from "1.prems"(1) True
    consider "columnReaches isBlack w h bpp step m r0 = Some True" "r = r0"
      | "columnReaches isBlack w h bpp step m r0 = Some False"
        "scanRight isBlack w h bpp step m l (r0 - 1) = Some r"
      by (subst (asm) scanRight_unfold) (auto split: option.splits bool.splits)
    then show ?thesis
    proof cases
      case 1
      then show ?thesis using True by auto
    next
      case 2
      obtain hits where hits: "columnHits (\<lambda>y. isBlack ((y * w + r0) * bpp)) h step m 0 0 = Some hits"
        "\<not> m \<le> hits"
        using 2(1) by (auto simp: columnReaches_def)
      have IH: "l - 1 \<le> r \<and> r \<le> r0 - 1
         \<and> (l \<le> r \<longrightarrow> columnReaches isBlack w h bpp step m r = Some True)
         \<and> (\<forall>x. r < x \<and> x \<le> r0 - 1 \<longrightarrow> columnReaches isBlack w h bpp step m x = Some False)"
        using "1.IH" [OF True hits 2(2)] True by simp
      have "columnReaches isBlack w h bpp step m x = Some False" if "r < x" "x \<le> r0" for x
        using that IH 2(1) by (cases "x = r0") auto
      then show ?thesis using IH by auto
    qed
  qed
qed

lemma columnReaches_returns:
  "1 \<le> step \<Longrightarrow> \<exists>b. columnReaches isBlack w h bpp step m x = Some b"
  using columnHits_returns [of step "\<lambda>y. isBlack ((y * w + x) * bpp)" h m 0 0]
  by (auto simp: columnReaches_def)

lemma scanLeft_returns:
  assumes "1 \<le> step"
  shows "\<exists>l. scanLeft isBlack w h bpp step m l0 = Some l"
  using assms
proof (induction isBlack w h bpp step m l0 rule: scanLeft.induct)
  case (1 isBlack w h bpp step m l0)
  show ?case
  proof (cases "l0 < w")
    case False
    then show ?thesis by (subst scanLeft.simps) simp
  next
    case True
    obtain hits where hits: "columnHits (\<lambda>y. isBlack ((y * w + l0) * bpp)) h step m 0 0 = Some hits"
      using columnHits_returns [OF "1.prems"] by blast
    show ?thesis
    proof (cases "m \<le> hits")
      case True
      then show ?thesis using \<open>l0 < w\<close> hits by (subst scanLeft.simps) simp
    next
      case False
      from "1.IH" [OF True hits False "1.prems"] show ?thesis
        using True hits False by (subst scanLeft.simps) simp
    qed
  qed
qed

lemma scanRight_returns:
  assumes "1 \<le> step"
  shows "\<exists>r. scanRight isBlack w h bpp step m l r0 = Some r"
  using assms
proof (induction isBlack w h bpp step m l r0 rule: scanRight.induct)
  case (1 isBlack w h bpp step m l r0)
  show ?case
  proof (cases "l \<le> r0")
    case False
    then show ?thesis by (subst scanRight.simps) simp
  next
    case True
    obtain hits where hits: "columnHits (\<lambda>y. isBlack ((y * w + r0) * bpp)) h step m 0 0 = Some hits"
      using columnHits_returns [OF "1.prems"] by blast
    show ?thesis
    proof (cases "m \<le> hits")
      case True
      then show ?thesis using \<open>l \<le> r0\<close> hits by (subst scanRight.simps) simp
    next
      case False
      from "1.IH" [OF True hits False "1.prems"] show ?thesis
        using True hits False by (subst scanRight.simps) simp
    qed
  qed
qed

lemma compute_scan:
  assumes "bytesPerPixel_opt options = None \<or> bytesPerPixel_opt options = Some 4" "1 \<le> w" "1 \<le> h"
  shows "computeHorizontalBounds (ArrayBuffer bytes) w h options =
     (case scanLeft (scanIsBlack bytes options) w h 4 (scanStep options) (scanMinHits h options) 0 of
        None \<Rightarrow> None
      | Some left \<Rightarrow>
          (case scanRight (scanIsBlack bytes options) w h 4 (scanStep options)
                  (scanMinHits h options) left (w - 1) of
             None \<Rightarrow> None
           | Some right \<Rightarrow>
               if left \<ge> w \<or> right < 0 \<or> right < left
               then Some (Inr \<lparr>bounds_left = 0, bounds_right = w - 1\<rparr>)
               else Some (Inr \<lparr>bounds_left = left, bounds_right = right\<rparr>)))"
proof -
  have b4: "(case bytesPerPixel_opt options of None \<Rightarrow> 4 | Some v \<Rightarrow> v) = (4 :: int)"
    using assms(1) by auto
  have nz: "\<not> (w \<le> 0 \<or> h \<le> 0)" using assms by simp
  show ?thesis
    unfolding computeHorizontalBounds_def Let_def b4 scanIsBlack_def scanStep_def scanMinHits_def
    using nz by simp
qed

lemma scanMinHits_bounds:
  assumes "1 \<le> h"
  shows "1 \<le> scanMinHits h options" "scanMinHits h options \<le> h"
proof -
  define c :: rat where
    "c = max 0 (min 1 (case minCoverageRatio_opt options of None \<Rightarrow> 2 / 100 | Some v \<Rightarrow> v))"
  have c: "0 \<le> c" "c \<le> 1" by (simp_all add: c_def)
  have "of_int h * c \<le> of_int h * 1"
    using c assms by (intro mult_left_mono) auto
  then have "\<lfloor>of_int h * c\<rfloor> \<le> \<lfloor>(of_int h :: rat)\<rfloor>"
    by (intro floor_mono) simp
  then have "\<lfloor>of_int h * c\<rfloor> \<le> h" by simp
  then show "scanMinHits h options \<le> h"
    using assms by (simp add: scanMinHits_def flip: c_def)
  show "1 \<le> scanMinHits h options"
    by (simp add: scanMinHits_def)
qed

lemma reaches_iff_inked:
  assumes "1 \<le> scanStep options" "1 \<le> h"
  shows "columnReaches (scanIsBlack bytes options) w h 4 (scanStep options) (scanMinHits h options) x
         = Some (inkedColumn bytes w h options x)"
  using columnHits_inked [OF assms(1) scanMinHits_bounds(1) [OF assms(2)],
      of "scanIsBlack bytes options" w x h options]
  by (auto simp: columnReaches_def inkedColumn_def)

lemma reaches_stuck:
  assumes "columnReaches isBlack w h bpp step m x = Some b" "step \<le> 0" "1 \<le> h"
  shows "b"
  using assms columnHits_stuck [of "\<lambda>y. isBlack ((y * w + x) * bpp)" h step m 0 0]
  by (auto simp: columnReaches_def)

lemma compute_bounds:
  assumes bpp: "bytesPerPixel_opt options = None \<or> bytesPerPixel_opt options = Some 4"
    and w: "1 \<le> w" and h: "1 \<le> h"
    and res: "computeHorizontalBounds (ArrayBuffer bytes) w h options = Some (Inr b)"
  shows "0 \<le> bounds_left b \<and> bounds_left b \<le> bounds_right b \<and> bounds_right b \<le> w - 1"
    and "(\<forall>x. 0 \<le> x \<and> x < w \<longrightarrow> \<not> inkedColumn bytes w h options x)
         \<Longrightarrow> b = \<lparr>bounds_left = 0, bounds_right = w - 1\<rparr>"
proof -
  let ?f = "scanIsBlack bytes options" and ?s = "scanStep options" and ?m = "scanMinHits h options"
  from res obtain l r where
    l: "scanLeft ?f w h 4 ?s ?m 0 = Some l" and
    r: "scanRight ?f w h 4 ?s ?m l (w - 1) = Some r" and
    b: "b = (if l \<ge> w \<or> r < 0 \<or> r < l then \<lparr>bounds_left = 0, bounds_right = w - 1\<rparr>
             else \<lparr>bounds_left = l, bounds_right = r\<rparr>)"
    unfolding compute_scan [OF bpp w h] by (auto split: option.splits if_splits)
  have L: "0 \<le> l" "l \<le> w" "l < w \<longrightarrow> columnReaches ?f w h 4 ?s ?m l = Some True"
    "\<forall>x. 0 \<le> x \<and> x < l \<longrightarrow> columnReaches ?f w h 4 ?s ?m x = Some False"
    using scanLeft_Some [OF l] w by auto
  have R: "l - 1 \<le> r" "r \<le> w - 1" "l \<le> r \<longrightarrow> columnReaches ?f w h 4 ?s ?m r = Some True"
    "\<forall>x. r < x \<and> x \<le> w - 1 \<longrightarrow> columnReaches ?f w h 4 ?s ?m x = Some False"
    using scanRight_Some [OF r] L(2) by auto
  show "0 \<le> bounds_left b \<and> bounds_left b \<le> bounds_right b \<and> bounds_right b \<le> w - 1"
    using b L(1,2) R(1,2) w by auto
  assume none: "\<forall>x. 0 \<le> x \<and> x < w \<longrightarrow> \<not> inkedColumn bytes w h options x"
  show "b = \<lparr>bounds_left = 0, bounds_right = w - 1\<rparr>"
  proof (cases "1 \<le> ?s")
    case True
    have "\<not> l < w"
    proof
      assume "l < w"
      then have "columnReaches ?f w h 4 ?s ?m l = Some True" using L(3) by simp
      then have "inkedColumn bytes w h options l"
        using reaches_iff_inked [OF True h, of bytes w l] by simp
      then show False using none L(1) \<open>l < w\<close> by simp
    qed
    then show ?thesis using b by simp
  next
    case False
    then have s: "?s \<le> 0" by simp
    have "l = 0"
    proof (rule ccontr)
      assume "l \<noteq> 0"
      then have "columnReaches ?f w h 4 ?s ?m 0 = Some False" using L(1,4) by simp
      then show False using reaches_stuck [OF _ s h] by blast
    qed
    moreover have "r = w - 1"
    proof (rule ccontr)
      assume "r \<noteq> w - 1"
      then have "columnReaches ?f w h 4 ?s ?m (w - 1) = Some False" using R(2,4) by simp
      then show False using reaches_stuck [OF _ s h] by blast
    qed
    ultimately show ?thesis using b by simp
  qed
qed



lemma compute_empty:
  assumes bpp: "bytesPerPixel_opt options = None \<or> bytesPerPixel_opt options = Some 4"
    and "w \<le> 0 \<or> h \<le> 0"
  shows "computeHorizontalBounds (ArrayBuffer bytes) w h options
         = Some (Inr \<lparr>bounds_left = 0, bounds_right = 0\<rparr>)"
proof -
  have b4: "(case bytesPerPixel_opt options of None \<Rightarrow> 4 | Some v \<Rightarrow> v) = (4 :: int)"
    using bpp by auto
  show ?thesis
    unfolding computeHorizontalBounds_def Let_def b4 using assms(2) by simp
qed


lemma compute_exact:
  assumes bpp: "bytesPerPixel_opt options = None \<or> bytesPerPixel_opt options = Some 4"
    and w: "1 \<le> w" and h: "1 \<le> h" and s: "1 \<le> scanStep options"
    and L: "0 \<le> L" "L \<le> R" "R < w"
    and inked: "\<forall>x. 0 \<le> x \<and> x < w \<longrightarrow> (inkedColumn bytes w h options x \<longleftrightarrow> L \<le> x \<and> x \<le> R)"
  shows "computeHorizontalBounds (ArrayBuffer bytes) w h options
         = Some (Inr \<lparr>bounds_left = L, bounds_right = R\<rparr>)"
proof -
  let ?f = "scanIsBlack bytes options" and ?s = "scanStep options" and ?m = "scanMinHits h options"
  have reach: "columnReaches ?f w h 4 ?s ?m x = Some (L \<le> x \<and> x \<le> R)" if "0 \<le> x" "x < w" for x
    using reaches_iff_inked [OF s h, of bytes w x] inked that by simp
  obtain l where l: "scanLeft ?f w h 4 ?s ?m 0 = Some l"
    using scanLeft_returns [OF s] by blast
  obtain r where r: "scanRight ?f w h 4 ?s ?m l (w - 1) = Some r"
    using scanRight_returns [OF s] by blast
  have A: "0 \<le> l" "l \<le> w" "l < w \<longrightarrow> columnReaches ?f w h 4 ?s ?m l = Some True"
    "\<forall>x. 0 \<le> x \<and> x < l \<longrightarrow> columnReaches ?f w h 4 ?s ?m x = Some False"
    using scanLeft_Some [OF l] w by auto
  have "\<not> L < l"
    using A(4) [rule_format, of L] reach [of L] L A(2) by auto
  moreover have "L \<le> l"
  proof (cases "l < w")
    case True
    then show ?thesis using A(1,3) reach [of l] by auto
  next
    case False
    then show ?thesis using A(2) L by simp
  qed
  ultimately have lL: "l = L" by simp
  have B: "L - 1 \<le> r" "r \<le> w - 1" "L \<le> r \<longrightarrow> columnReaches ?f w h 4 ?s ?m r = Some True"
    "\<forall>x. r < x \<and> x \<le> w - 1 \<longrightarrow> columnReaches ?f w h 4 ?s ?m x = Some False"
    using scanRight_Some [OF r] A(2) unfolding lL by auto
  have "\<not> r < R"
    using B(4) [rule_format, of R] reach [of R] L by auto
  moreover have "r \<le> R"
    using B(3) reach [of r] B(2) L calculation by auto
  ultimately have rR: "r = R" by simp
  show ?thesis
    using L l [unfolded lL] r [unfolded lL rR] by (simp add: compute_scan [OF bpp w h])
qed

lemma sampledRows_1: "sampledRows h 1 = [0..h - 1]"
  by (simp add: sampledRows_def)

lemma noTrim_simps:
  "scanStep noTrimOptions = 1" "scanIsBlack bytes noTrimOptions = isBlackAtIndex bytes RGBA 64"
  "bytesPerPixel_opt noTrimOptions = None"
  by (simp_all add: scanStep_def scanIsBlack_def noTrimOptions_def)

section \<open>The claims about cropping and scanning\<close>

text \<open>
  C2. For a buffer of \<open>w * h * 4\<close> bytes and bounds \<open>0 \<le> L \<le> R < w\<close>, \<open>cropHorizontalBuffer\<close>
  returns a buffer of width \<open>R - L + 1\<close> and height \<open>h\<close>, packed with row stride
  \<open>(R - L + 1) * 4\<close>, whose row \<open>y\<close> is the byte span of the source from \<open>(y * w + L) * 4\<close>
  up to \<open>(y * w + R + 1) * 4\<close>.
\<close>

theorem crop_copies_row_spans:
  assumes "int (length buffer) = w * h * 4" "0 \<le> L" "L \<le> R" "R < w" "0 \<le> h"
    and "bytesPerPixel_opt options = None \<or> bytesPerPixel_opt options = Some 4"
  shows "\<exists>out. cropHorizontalBuffer buffer w h L R options
             = Inr \<lparr>crop_buffer = out, crop_width = R - L + 1, crop_height = h\<rparr>
          \<and> int (length out) = (R - L + 1) * h * 4
          \<and> (\<forall>y. 0 \<le> y \<and> y < h \<longrightarrow>
                byteSpan out (y * (R - L + 1) * 4) ((y + 1) * (R - L + 1) * 4)
                = byteSpan buffer ((y * w + L) * 4) ((y * w + R + 1) * 4))"
  using assms by (rule crop_rows_general)

theorem crop_copies_row_spans_witness:
  "\<exists>out. cropHorizontalBuffer [1, 2, 3, 4, 5, 6, 7, 8, 9, 10, 11, 12, 13, 14, 15, 16] 2 2 1 1 noTrimOptions
            = Inr \<lparr>crop_buffer = out, crop_width = 1, crop_height = 2\<rparr>
         \<and> int (length out) = 8
         \<and> byteSpan out 0 4 = [5, 6, 7, 8]
         \<and> byteSpan out 4 8 = [13, 14, 15, 16]"
proof -
  let ?b = "[1, 2, 3, 4, 5, 6, 7, 8, 9, 10, 11, 12, 13, 14, 15, 16] :: byte list"
  obtain out where
    r: "cropHorizontalBuffer ?b 2 2 1 1 noTrimOptions
          = Inr \<lparr>crop_buffer = out, crop_width = 1 - 1 + 1, crop_height = 2\<rparr>" and
    l: "int (length out) = (1 - 1 + 1) * 2 * 4" and
    rows: "\<forall>y. 0 \<le> y \<and> y < 2 \<longrightarrow>
                byteSpan out (y * (1 - 1 + 1) * 4) ((y + 1) * (1 - 1 + 1) * 4)
                = byteSpan ?b ((y * 2 + 1) * 4) ((y * 2 + 1 + 1) * 4)"
    using crop_copies_row_spans [of ?b 2 2 1 1 noTrimOptions]
    by (auto simp: noTrimOptions_def)
  have "byteSpan out 0 4 = [5, 6, 7, 8]"
    using rows [rule_format, of 0] by (simp add: byteSpan_def)
  moreover have "byteSpan out 4 8 = [13, 14, 15, 16]"
    using rows [rule_format, of 1] by (simp add: byteSpan_def)
  ultimately show ?thesis using r l by auto
qed

text \<open>
  C5, as stated, fails: with \<open>right < left\<close> the crop width is 0 and the call returns a new
  empty buffer of width 0, not the input buffer.
\<close>

theorem crop_degenerate_not_original:
  "max 0 (0 - 1 + 1) \<le> (0 :: int)
   \<and> cropHorizontalBuffer [1, 2, 3, 4] 1 1 1 0 noTrimOptions
       = Inr \<lparr>crop_buffer = [], crop_width = 0, crop_height = 1\<rparr>
   \<and> ([] :: byte list) \<noteq> [1, 2, 3, 4]"
  by (simp add: crop_empty)

text \<open>
  C5, amended. With \<open>right < left\<close>, \<open>cropHorizontalBuffer\<close> returns the newly allocated empty
  buffer, with width 0 and the given height. For the full width (\<open>left = 0\<close>,
  \<open>right = width - 1\<close>) of a buffer of \<open>width * height * 4\<close> bytes it returns the newly
  allocated buffer filled with the same bytes, with the same width and height.
\<close>

theorem crop_degenerate_allocates:
  "(right < left \<longrightarrow>
      cropHorizontalBuffer buffer width height left right options
        = Inr \<lparr>crop_buffer = [], crop_width = 0, crop_height = height\<rparr>)
   \<and> (int (length buffer) = width * height * 4 \<and> 0 < width \<and> 0 \<le> height
        \<and> (bytesPerPixel_opt options = None \<or> bytesPerPixel_opt options = Some 4) \<longrightarrow>
      cropHorizontalBuffer buffer width height 0 (width - 1) options
        = Inr \<lparr>crop_buffer = buffer, crop_width = width, crop_height = height\<rparr>)"
  using crop_empty crop_full_width by blast

theorem crop_degenerate_allocates_witness:
  "cropHorizontalBuffer [1, 2, 3, 4] 1 1 1 0 noTrimOptions
     = Inr \<lparr>crop_buffer = [], crop_width = 0, crop_height = 1\<rparr>
   \<and> cropHorizontalBuffer [1, 2, 3, 4] 1 1 0 0 noTrimOptions
     = Inr \<lparr>crop_buffer = [1, 2, 3, 4], crop_width = 1, crop_height = 1\<rparr>"
  using crop_degenerate_allocates [of 0 1 "[1, 2, 3, 4]" 1 1 noTrimOptions]
  by (simp add: noTrimOptions_def)

text \<open>
  C3. In a buffer of \<open>w * h * 4\<close> bytes whose pixel \<open>(x, y)\<close> is accepted by \<open>isBlackAtIndex\<close>
  (RGBA, threshold 64) exactly when \<open>L \<le> x \<le> R\<close>, for all rows \<open>y\<close>, the call of
  \<open>computeHorizontalBounds\<close> without options returns \<open>{left: L, right: R}\<close>.
\<close>

theorem bounds_of_inked_band:
  assumes len: "int (length bytes) = w * h * 4" and w: "1 \<le> w" and h: "1 \<le> h"
    and L: "0 \<le> L" "L \<le> R" "R < w"
    and px: "\<forall>x y. 0 \<le> x \<and> x < w \<and> 0 \<le> y \<and> y < h \<longrightarrow>
            (isBlackAtIndex bytes RGBA 64 ((y * w + x) * 4) \<longleftrightarrow> L \<le> x \<and> x \<le> R)"
  shows "computeHorizontalBounds (ArrayBuffer bytes) w h noTrimOptions
         = Some (Inr \<lparr>bounds_left = L, bounds_right = R\<rparr>)"
proof (rule compute_exact)
  show "\<forall>x. 0 \<le> x \<and> x < w \<longrightarrow> (inkedColumn bytes w h noTrimOptions x \<longleftrightarrow> L \<le> x \<and> x \<le> R)"
  proof (intro allI impI)
    fix x assume x: "0 \<le> x \<and> x < w"
    have m: "1 \<le> scanMinHits h noTrimOptions" "scanMinHits h noTrimOptions \<le> h"
      using scanMinHits_bounds [OF h] by auto
    show "inkedColumn bytes w h noTrimOptions x \<longleftrightarrow> L \<le> x \<and> x \<le> R"
    proof (cases "L \<le> x \<and> x \<le> R")
      case True
      then have "[y \<leftarrow> [0..h - 1]. isBlackAtIndex bytes RGBA 64 ((y * w + x) * 4)] = [0..h - 1]"
        using px x by (intro filter_True) auto
      then show ?thesis
        using True m h by (simp add: inkedColumn_def columnInked_def sampledRows_1 noTrim_simps)
    next
      case False
      then have "[y \<leftarrow> [0..h - 1]. isBlackAtIndex bytes RGBA 64 ((y * w + x) * 4)] = []"
        using px x by (auto simp: filter_empty_conv)
      then show ?thesis
        using False m by (simp add: inkedColumn_def columnInked_def sampledRows_1 noTrim_simps)
    qed
  qed
qed (use w h L in \<open>simp_all add: noTrim_simps\<close>)

theorem bounds_of_inked_band_witness:
  "computeHorizontalBounds
     (ArrayBuffer [255, 255, 255, 255, 0, 0, 0, 255, 255, 255, 255, 255,
                   255, 255, 255, 255, 0, 0, 0, 255, 255, 255, 255, 255]) 3 2 noTrimOptions
   = Some (Inr \<lparr>bounds_left = 1, bounds_right = 1\<rparr>)"
proof (rule bounds_of_inked_band)
  let ?b = "[255, 255, 255, 255, 0, 0, 0, 255, 255, 255, 255, 255,
             255, 255, 255, 255, 0, 0, 0, 255, 255, 255, 255, 255] :: byte list"
  show "\<forall>x y. 0 \<le> x \<and> x < 3 \<and> 0 \<le> y \<and> y < 2 \<longrightarrow>
            (isBlackAtIndex ?b RGBA 64 ((y * 3 + x) * 4) \<longleftrightarrow> 1 \<le> x \<and> x \<le> 1)"
  proof (intro allI impI)
    fix x y :: int
    assume "0 \<le> x \<and> x < 3 \<and> 0 \<le> y \<and> y < 2"
    then have "(x = 0 \<or> x = 1 \<or> x = 2) \<and> (y = 0 \<or> y = 1)" by auto
    then show "isBlackAtIndex ?b RGBA 64 ((y * 3 + x) * 4) \<longleftrightarrow> 1 \<le> x \<and> x \<le> 1"
      by (auto simp: isBlackAtIndex_def viewAt_def)
  qed
qed simp_all



text \<open>
  C10. With four bytes per pixel and \<open>width \<le> 0\<close> or \<open>height \<le> 0\<close>, \<open>computeHorizontalBounds\<close>
  returns \<open>{left: 0, right: 0}\<close> without throwing, which is not \<open>{0, width - 1}\<close> unless
  \<open>width = 1\<close>; and returned bounds exceed \<open>width - 1\<close> only in this case.
\<close>

theorem empty_image_bounds:
  assumes "bytesPerPixel_opt options = None \<or> bytesPerPixel_opt options = Some 4"
  shows "(w \<le> 0 \<or> h \<le> 0 \<longrightarrow>
            computeHorizontalBounds (ArrayBuffer bytes) w h options
              = Some (Inr \<lparr>bounds_left = 0, bounds_right = 0\<rparr>)
            \<and> (w \<noteq> 1 \<longrightarrow> \<lparr>bounds_left = 0, bounds_right = 0\<rparr>
                          \<noteq> \<lparr>bounds_left = 0, bounds_right = w - 1\<rparr>))
         \<and> (\<forall>b. computeHorizontalBounds (ArrayBuffer bytes) w h options = Some (Inr b)
                \<and> w - 1 < bounds_right b \<longrightarrow> w \<le> 0 \<or> h \<le> 0)"
proof (intro conjI impI allI)
  assume "w \<le> 0 \<or> h \<le> 0"
  then show "computeHorizontalBounds (ArrayBuffer bytes) w h options
              = Some (Inr \<lparr>bounds_left = 0, bounds_right = 0\<rparr>)"
    using compute_empty [OF assms] by blast
next
  assume "w \<noteq> 1"
  then show "\<lparr>bounds_left = 0, bounds_right = 0\<rparr> \<noteq> \<lparr>bounds_left = 0, bounds_right = w - 1\<rparr>"
    by simp
next
  fix b
  assume b: "computeHorizontalBounds (ArrayBuffer bytes) w h options = Some (Inr b)
                \<and> w - 1 < bounds_right b"
  show "w \<le> 0 \<or> h \<le> 0"
  proof (rule ccontr)
    assume "\<not> (w \<le> 0 \<or> h \<le> 0)"
    then have "1 \<le> w" "1 \<le> h" by auto
    from compute_bounds(1) [OF assms this conjunct1 [OF b]] b show False by simp
  qed
qed

theorem empty_image_bounds_witness:
  "computeHorizontalBounds (ArrayBuffer []) 0 5 noTrimOptions
     = Some (Inr \<lparr>bounds_left = 0, bounds_right = 0\<rparr>)
   \<and> computeHorizontalBounds (ArrayBuffer []) 3 0 noTrimOptions
     = Some (Inr \<lparr>bounds_left = 0, bounds_right = 0\<rparr>)"
  using empty_image_bounds [of noTrimOptions 0 5 "[]"] empty_image_bounds [of noTrimOptions 3 0 "[]"]
  by (simp add: noTrim_simps)




end
